theory Spec2Isabelle
  imports Main "HOL-Library.Word"
begin

unbundle bit_operations_syntax

section \<open>Memory objects and faults\<close>

text \<open>
  The crash handler of \<^verbatim>\<open>ndk_crash_handler.c\<close> works on fixed-capacity C arrays. An array
  of \<^verbatim>\<open>char\<close> is a list of cells; a cell that was never written holds \<open>None\<close> (automatic
  storage such as \<^verbatim>\<open>temp\<close> and \<^verbatim>\<open>num_buf\<close> starts that way), a written cell holds its
  byte. An access outside the array, a read of a cell never written and a division by zero
  are undefined in C: the model returns them as faults, so that every theorem saying
  \<open>Inr\<close> also says that none of them happens.
\<close>

datatype fault = OutOfBounds | UninitRead | DivByZero | NullPointer

type_synonym mem = "char option list"

definition NUL :: char where
  "NUL = CHR 0x00"

text \<open>A string literal: its characters followed by the terminating NUL.\<close>

definition lit :: "string \<Rightarrow> mem" where
  "lit s = map Some s @ [Some NUL]"

text \<open>\<^verbatim>\<open>m[i]\<close> as an rvalue and \<^verbatim>\<open>m[i] = c\<close>, with C's \<^verbatim>\<open>int\<close> index.\<close>

definition rd :: "mem \<Rightarrow> int \<Rightarrow> fault + char" where
  "rd m i =
     (if 0 \<le> i \<and> i < int (length m)
      then (case m ! nat i of None \<Rightarrow> Inl UninitRead | Some c \<Rightarrow> Inr c)
      else Inl OutOfBounds)"

definition wr :: "mem \<Rightarrow> int \<Rightarrow> char \<Rightarrow> fault + mem" where
  "wr m i c =
     (if 0 \<le> i \<and> i < int (length m) then Inr (m[nat i := Some c]) else Inl OutOfBounds)"

text \<open>Sequencing of steps that may fault: the first fault ends the run.\<close>

definition bindF :: "fault + 'a \<Rightarrow> ('a \<Rightarrow> fault + 'b) \<Rightarrow> fault + 'b" where
  "bindF m f = (case m of Inl e \<Rightarrow> Inl e | Inr x \<Rightarrow> f x)"

lemma bindF_cong [fundef_cong]:
  "m = m' \<Longrightarrow> (\<And>x. m' = Inr x \<Longrightarrow> f x = f' x) \<Longrightarrow> bindF m f = bindF m' f'"
  by (simp add: bindF_def split: sum.splits)

text \<open>The same accesses on an array of initialised objects (pointers, structs).\<close>

definition rd_at :: "'a list \<Rightarrow> int \<Rightarrow> fault + 'a" where
  "rd_at xs i = (if 0 \<le> i \<and> i < int (length xs) then Inr (xs ! nat i) else Inl OutOfBounds)"

definition wr_at :: "'a list \<Rightarrow> int \<Rightarrow> 'a \<Rightarrow> fault + 'a list" where
  "wr_at xs i x = (if 0 \<le> i \<and> i < int (length xs) then Inr (xs[nat i := x]) else Inl OutOfBounds)"

text \<open>
  What the kernel copies in from user memory: the string at the start of an array, up to
  its NUL (the path given to \<^verbatim>\<open>open\<close>), and the first \<open>n\<close> bytes of an array (the
  payload given to \<^verbatim>\<open>write\<close>).
\<close>

fun rd_cstr :: "mem \<Rightarrow> fault + string" where
  "rd_cstr [] = Inl OutOfBounds"
| "rd_cstr (None # m) = Inl UninitRead"
| "rd_cstr (Some c # m) = (if c = NUL then Inr [] else bindF (rd_cstr m) (\<lambda>cs. Inr (c # cs)))"

fun rd_bytes :: "mem \<Rightarrow> nat \<Rightarrow> fault + string" where
  "rd_bytes m 0 = Inr []"
| "rd_bytes [] (Suc n) = Inl OutOfBounds"
| "rd_bytes (None # m) (Suc n) = Inl UninitRead"
| "rd_bytes (Some c # m) (Suc n) = bindF (rd_bytes m n) (\<lambda>cs. Inr (c # cs))"

section \<open>Constants of the header\<close>

definition MAX_BACKTRACE_DEPTH :: int where
  "MAX_BACKTRACE_DEPTH = 64"

definition CRASH_BUFFER_SIZE :: int where
  "CRASH_BUFFER_SIZE = 4096"

definition INT_BUFFER_SIZE :: int where
  "INT_BUFFER_SIZE = 24"

section \<open>Safe primitives\<close>

subsection \<open>\<^verbatim>\<open>safe_itoa\<close>\<close>

text \<open>
  \<^verbatim>\<open>unsigned long\<close> is 64 bits wide (the LP64 data model of the 64-bit Android ABIs);
  the \<^verbatim>\<open>int base\<close> is converted to it for \<^verbatim>\<open>%\<close> and \<^verbatim>\<open>/\<close>, which \<open>word_of_int\<close> does.
  \<^verbatim>\<open>digits\<close> is the 17-byte array of the literal.
\<close>

definition digits :: mem where
  "digits = lit ''0123456789abcdef''"

text \<open>The first loop, lines 46-49: least significant digit first into \<^verbatim>\<open>temp\<close>.\<close>

function itoa_fill :: "64 word \<Rightarrow> int \<Rightarrow> int \<Rightarrow> mem \<Rightarrow> fault + (int \<times> mem)" where
  "itoa_fill v base i temp =
     (if v > 0 \<and> i < INT_BUFFER_SIZE - 1 then
        (if (word_of_int base :: 64 word) = 0 then Inl DivByZero
         else bindF (rd digits (uint (v mod word_of_int base))) (\<lambda>d.
              bindF (wr temp i d) (\<lambda>temp'.
              itoa_fill (v div word_of_int base) base (i + 1) temp')))
      else Inr (i, temp))"
  by pat_completeness auto
termination
  by (relation "measure (\<lambda>(v, base, i, temp). nat (INT_BUFFER_SIZE - i))") auto

text \<open>The second loop, lines 51-53: \<^verbatim>\<open>temp\<close> backwards into \<^verbatim>\<open>buffer\<close>.\<close>

function itoa_emit :: "int \<Rightarrow> int \<Rightarrow> mem \<Rightarrow> mem \<Rightarrow> fault + (int \<times> mem)" where
  "itoa_emit i j temp buffer =
     (if i > 0 then
        bindF (rd temp (i - 1)) (\<lambda>c.
        bindF (wr buffer j c) (\<lambda>buffer'.
        itoa_emit (i - 1) (j + 1) temp buffer'))
      else Inr (j, buffer))"
  by pat_completeness auto
termination
  by (relation "measure (\<lambda>(i, j, temp, buffer). nat i)") auto

text \<open>The function returns \<^verbatim>\<open>j\<close>; the model returns it with the buffer as written.\<close>

definition safe_itoa :: "64 word \<Rightarrow> mem \<Rightarrow> int \<Rightarrow> fault + (int \<times> mem)" where
  "safe_itoa v buffer base =
     (if v = 0 then
        bindF (wr buffer 0 (CHR ''0'')) (\<lambda>buffer.
        bindF (wr buffer 1 NUL) (\<lambda>buffer.
        Inr (1, buffer)))
      else
        bindF (itoa_fill v base 0 (replicate (nat INT_BUFFER_SIZE) None)) (\<lambda>(i, temp).
        bindF (itoa_emit i 0 temp buffer) (\<lambda>(j, buffer).
        bindF (wr buffer j NUL) (\<lambda>buffer.
        Inr (j, buffer)))))"

subsection \<open>\<^verbatim>\<open>safe_strcpy\<close>\<close>

function strcpy_loop :: "mem \<Rightarrow> mem \<Rightarrow> int \<Rightarrow> int \<Rightarrow> fault + (int \<times> mem)" where
  "strcpy_loop dest src max_len i =
     bindF (rd src i) (\<lambda>c.
       if c \<noteq> NUL \<and> i < max_len - 1 then
         bindF (wr dest i c) (\<lambda>dest'. strcpy_loop dest' src max_len (i + 1))
       else Inr (i, dest))"
  by pat_completeness auto
termination
  by (relation "measure (\<lambda>(dest, src, max_len, i). nat (max_len - i))")
     (auto simp: rd_def split: if_splits option.splits)

definition safe_strcpy :: "mem \<Rightarrow> mem \<Rightarrow> int \<Rightarrow> fault + (int \<times> mem)" where
  "safe_strcpy dest src max_len =
     bindF (strcpy_loop dest src max_len 0) (\<lambda>(i, dest).
     bindF (wr dest i NUL) (\<lambda>dest.
     Inr (i, dest)))"


section \<open>The operating system as the handler sees it\<close>

text \<open>
  The signal numbers and the \<^verbatim>\<open>sigaction\<close> flags come from \<^verbatim>\<open>signal.h\<close>; the values
  are those of Linux on ARM and x86, the targets of the NDK. The theorems use only that
  the six signal numbers differ.
\<close>

definition SIGILL :: int where "SIGILL = 4"
definition SIGTRAP :: int where "SIGTRAP = 5"
definition SIGABRT :: int where "SIGABRT = 6"
definition SIGBUS :: int where "SIGBUS = 7"
definition SIGFPE :: int where "SIGFPE = 8"
definition SIGSEGV :: int where "SIGSEGV = 11"

definition SA_SIGINFO :: "32 word" where "SA_SIGINFO = 0x00000004"
definition SA_ONSTACK :: "32 word" where "SA_ONSTACK = 0x08000000"

text \<open>
  \<^verbatim>\<open>struct sigaction\<close>: the handler (the union of \<^verbatim>\<open>sa_handler\<close> and \<^verbatim>\<open>sa_sigaction\<close>),
  the flags and the mask. A handler is the default disposition, ignore, some function of
  the host program (by its address), or the \<^verbatim>\<open>crash_signal_handler\<close> of this file.
\<close>

datatype sighandler = SIG_DFL | SIG_IGN | Host_handler nat | Crash_signal_handler

record sigaction_t =
  sa_handler :: sighandler
  sa_flags :: "32 word"
  sa_mask :: "int set"

text \<open>
  The system calls the file makes, in the order made, and the table of signal actions.
  \<^verbatim>\<open>open\<close> is always called with \<^verbatim>\<open>O_WRONLY | O_CREAT | O_TRUNC\<close> and mode 0644; what it
  returns is an input of the model (\<open>ret\<close>). The code discards what \<^verbatim>\<open>write\<close>,
  \<^verbatim>\<open>close\<close>, \<^verbatim>\<open>sigaction\<close> and \<^verbatim>\<open>raise\<close> return, so the model does not produce it.
\<close>

datatype syscall =
    SysOpen string
  | SysWrite int string
  | SysClose int
  | SysSigaction int sigaction_t
  | SysRaise int

record os_state =
  actions :: "int \<Rightarrow> sigaction_t"
  calls :: "syscall list"

definition sys_open :: "mem \<Rightarrow> int \<Rightarrow> os_state \<Rightarrow> fault + (int \<times> os_state)" where
  "sys_open path ret os =
     bindF (rd_cstr path) (\<lambda>p. Inr (ret, os\<lparr>calls := calls os @ [SysOpen p]\<rparr>))"

definition sys_write :: "int \<Rightarrow> mem \<Rightarrow> int \<Rightarrow> os_state \<Rightarrow> fault + os_state" where
  "sys_write fd buf len os =
     bindF (rd_bytes buf (nat len)) (\<lambda>bs. Inr (os\<lparr>calls := calls os @ [SysWrite fd bs]\<rparr>))"

definition sys_close :: "int \<Rightarrow> os_state \<Rightarrow> os_state" where
  "sys_close fd os = os\<lparr>calls := calls os @ [SysClose fd]\<rparr>"

text \<open>\<^verbatim>\<open>sigaction(sig, &act, &oldact)\<close>: installs \<open>act\<close>, hands back the action it replaces.\<close>

definition sys_sigaction :: "int \<Rightarrow> sigaction_t \<Rightarrow> os_state \<Rightarrow> sigaction_t \<times> os_state" where
  "sys_sigaction sig act os =
     (actions os sig,
      os\<lparr>actions := (actions os)(sig := act), calls := calls os @ [SysSigaction sig act]\<rparr>)"

definition sys_raise :: "int \<Rightarrow> os_state \<Rightarrow> os_state" where
  "sys_raise sig os = os\<lparr>calls := calls os @ [SysRaise sig]\<rparr>"

subsection \<open>\<^verbatim>\<open>safe_write\<close>\<close>

text \<open>The scan of line 72; \<^verbatim>\<open>size_t len\<close> never goes below 0.\<close>

function strlen_loop :: "mem \<Rightarrow> int \<Rightarrow> fault + int" where
  "strlen_loop str len =
     bindF (rd str len) (\<lambda>c. if c \<noteq> NUL then strlen_loop str (len + 1) else Inr len)"
  by pat_completeness auto
termination
  by (relation "measure (\<lambda>(str, len). length str - nat len)")
     (auto simp: rd_def split: if_splits option.splits)

text \<open>A pointer that may be \<^verbatim>\<open>NULL\<close> is an option.\<close>

definition safe_write :: "int \<Rightarrow> mem option \<Rightarrow> os_state \<Rightarrow> fault + os_state" where
  "safe_write fd str os =
     (if fd < 0 \<or> str = None then Inr os
      else bindF (strlen_loop (the str) 0) (\<lambda>len. sys_write fd (the str) len os))"

section \<open>Stack unwinder\<close>

datatype Unwind_Reason_Code = URC_NO_REASON | URC_END_OF_STACK

record backtrace_state_t =
  bt_buffer :: "64 word list"
  bt_max_depth :: int
  bt_count :: int

text \<open>
  The unwind context is given by the value \<^verbatim>\<open>_Unwind_GetIP\<close> reads from it.
\<close>

definition unwind_callback ::
  "64 word \<Rightarrow> backtrace_state_t \<Rightarrow> fault + (Unwind_Reason_Code \<times> backtrace_state_t)" where
  "unwind_callback pc state =
     (if bt_count state \<ge> bt_max_depth state then Inr (URC_END_OF_STACK, state)
      else if pc \<noteq> 0 then
        bindF (wr_at (bt_buffer state) (bt_count state) pc) (\<lambda>b.
        Inr (URC_NO_REASON, state\<lparr>bt_buffer := b, bt_count := bt_count state + 1\<rparr>))
      else Inr (URC_NO_REASON, state))"

text \<open>
  \<^verbatim>\<open>_Unwind_Backtrace\<close> belongs to the platform's unwinder library: it calls the callback
  on each frame of the stack, innermost first, and stops at the top of the stack or when
  the callback returns anything but \<^verbatim>\<open>_URC_NO_REASON\<close>. The stack is the list of the
  frames' program counters.
\<close>

fun Unwind_Backtrace ::
  "(64 word \<Rightarrow> 's \<Rightarrow> fault + (Unwind_Reason_Code \<times> 's)) \<Rightarrow> 64 word list \<Rightarrow> 's \<Rightarrow> fault + 's" where
  "Unwind_Backtrace trace [] arg = Inr arg"
| "Unwind_Backtrace trace (pc # stack) arg =
     bindF (trace pc arg) (\<lambda>(code, arg').
       if code = URC_NO_REASON then Unwind_Backtrace trace stack arg' else Inr arg')"

text \<open>The function returns \<^verbatim>\<open>state.count\<close>; the model returns it with the buffer as filled.\<close>

definition capture_backtrace ::
  "64 word list \<Rightarrow> int \<Rightarrow> 64 word list \<Rightarrow> fault + (int \<times> 64 word list)" where
  "capture_backtrace buffer max_depth stack =
     bindF (Unwind_Backtrace unwind_callback stack
              \<lparr>bt_buffer = buffer, bt_max_depth = max_depth, bt_count = 0\<rparr>) (\<lambda>state.
     Inr (bt_count state, bt_buffer state))"

section \<open>Fault dispatcher\<close>

record globals =
  g_crash_file_path :: mem
  g_crash_fd :: int
  g_write_buffer :: mem
  g_backtrace_buffer :: "64 word list"
  g_old_handlers :: "sigaction_t list"

definition g_signals :: "int list" where
  "g_signals = [SIGSEGV, SIGABRT, SIGBUS, SIGFPE, SIGILL, SIGTRAP]"

definition g_num_signals :: int where
  "g_num_signals = 6"

text \<open>Static storage as the program starts: zeroed, but for \<^verbatim>\<open>g_crash_fd = -1\<close>.\<close>

definition zero_sigaction :: sigaction_t where
  "zero_sigaction = \<lparr>sa_handler = SIG_DFL, sa_flags = 0, sa_mask = {}\<rparr>"

definition globals_at_start :: globals where
  "globals_at_start =
     \<lparr>g_crash_file_path = replicate 256 (Some NUL),
      g_crash_fd = - 1,
      g_write_buffer = replicate (nat CRASH_BUFFER_SIZE) (Some NUL),
      g_backtrace_buffer = replicate (nat MAX_BACKTRACE_DEPTH) 0,
      g_old_handlers = replicate 6 zero_sigaction\<rparr>"

definition newline :: string where
  "newline = [CHR 0x0A]"

definition get_signal_name :: "int \<Rightarrow> mem" where
  "get_signal_name sig =
     (if sig = SIGSEGV then lit ''SIGSEGV''
      else if sig = SIGABRT then lit ''SIGABRT''
      else if sig = SIGBUS then lit ''SIGBUS''
      else if sig = SIGFPE then lit ''SIGFPE''
      else if sig = SIGILL then lit ''SIGILL''
      else if sig = SIGTRAP then lit ''SIGTRAP''
      else lit ''UNKNOWN'')"

subsection \<open>\<^verbatim>\<open>crash_signal_handler\<close>\<close>

text \<open>
  What the handler is given: the signal, \<^verbatim>\<open>info->si_addr\<close>, and from its surroundings
  the value its \<^verbatim>\<open>open\<close> returns and the stack the unwinder walks. \<^verbatim>\<open>ucontext\<close> is not
  used.
\<close>

record siginfo_t =
  si_addr :: "64 word"

record surroundings =
  open_returns :: int
  call_stack :: "64 word list"

text \<open>The loop of lines 121-126.\<close>

function write_frames ::
  "int \<Rightarrow> int \<Rightarrow> int \<Rightarrow> 64 word list \<Rightarrow> mem \<Rightarrow> os_state \<Rightarrow> fault + (mem \<times> os_state)" where
  "write_frames fd i depth backtrace num_buf os =
     (if i < depth then
        bindF (safe_write fd (Some (lit ''0x'')) os) (\<lambda>os.
        bindF (rd_at backtrace i) (\<lambda>pc.
        bindF (safe_itoa pc num_buf 16) (\<lambda>(n, num_buf).
        bindF (safe_write fd (Some num_buf) os) (\<lambda>os.
        bindF (safe_write fd (Some (lit newline)) os) (\<lambda>os.
        write_frames fd (i + 1) depth backtrace num_buf os)))))
      else Inr (num_buf, os))"
  by pat_completeness auto
termination
  by (relation "measure (\<lambda>(fd, i, depth, backtrace, num_buf, os). nat (depth - i))") auto

text \<open>The block of lines 109-131, entered when \<^verbatim>\<open>fd >= 0\<close>.\<close>

definition write_record ::
  "int \<Rightarrow> int \<Rightarrow> siginfo_t \<Rightarrow> 64 word list \<Rightarrow> globals \<times> os_state \<Rightarrow> fault + (globals \<times> os_state)" where
  "write_record fd sig info frames = (\<lambda>(g, os).
     bindF (safe_write fd (Some (get_signal_name sig)) os) (\<lambda>os.
     bindF (safe_write fd (Some (lit newline)) os) (\<lambda>os.
     bindF (safe_write fd (Some (lit ''0x'')) os) (\<lambda>os.
     bindF (safe_itoa (si_addr info) (replicate (nat INT_BUFFER_SIZE) None) 16) (\<lambda>(n, num_buf).
     bindF (safe_write fd (Some num_buf) os) (\<lambda>os.
     bindF (safe_write fd (Some (lit newline)) os) (\<lambda>os.
     bindF (capture_backtrace (g_backtrace_buffer g) MAX_BACKTRACE_DEPTH frames) (\<lambda>(depth, backtrace).
     bindF (write_frames fd 0 depth backtrace num_buf os) (\<lambda>(num_buf, os).
     Inr (g\<lparr>g_backtrace_buffer := backtrace\<rparr>,
          if fd \<noteq> g_crash_fd g then sys_close fd os else os))))))))))"

text \<open>The search of lines 133-139.\<close>

function find_signal :: "int \<Rightarrow> nat \<Rightarrow> int" where
  "find_signal sig i =
     (if int i < g_num_signals then
        (if g_signals ! i = sig then int i else find_signal sig (i + 1))
      else - 1)"
  by pat_completeness auto
termination
  by (relation "measure (\<lambda>(sig, i). nat g_num_signals - i)") auto

definition crash_signal_handler ::
  "int \<Rightarrow> siginfo_t \<Rightarrow> surroundings \<Rightarrow> globals \<times> os_state \<Rightarrow> fault + (globals \<times> os_state)" where
  "crash_signal_handler sig info sur = (\<lambda>(g, os).
     bindF (sys_open (g_crash_file_path g) (open_returns sur) os) (\<lambda>(fd, os).
     bindF (let fd = (if fd < 0 then g_crash_fd g else fd) in
            if fd \<ge> 0 then write_record fd sig info (call_stack sur) (g, os) else Inr (g, os))
       (\<lambda>(g, os).
     bindF (let sig_index = find_signal sig 0 in
            if sig_index \<ge> 0 then
              bindF (rd_at (g_old_handlers g) sig_index) (\<lambda>act.
              Inr (snd (sys_sigaction sig act os)))
            else Inr os) (\<lambda>os.
     Inr (g, sys_raise sig os)))))"

subsection \<open>\<^verbatim>\<open>crash_handler_init\<close>\<close>

text \<open>The action of lines 153-157.\<close>

definition crash_sigaction :: sigaction_t where
  "crash_sigaction =
     \<lparr>sa_handler = Crash_signal_handler, sa_flags = SA_SIGINFO OR SA_ONSTACK, sa_mask = {}\<rparr>"

text \<open>The loop of lines 159-161.\<close>

function install_handlers ::
  "nat \<Rightarrow> sigaction_t \<Rightarrow> globals \<times> os_state \<Rightarrow> fault + (globals \<times> os_state)" where
  "install_handlers i sa (g, os) =
     (if int i < g_num_signals then
        bindF (rd_at g_signals (int i)) (\<lambda>sig.
        case sys_sigaction sig sa os of (old, os') \<Rightarrow>
        bindF (wr_at (g_old_handlers g) (int i) old) (\<lambda>table.
        install_handlers (i + 1) sa (g\<lparr>g_old_handlers := table\<rparr>, os')))
      else Inr (g, os))"
  by pat_completeness auto
termination
  by (relation "measure (\<lambda>(i, sa, g, os). nat g_num_signals - i)") auto

text \<open>\<^verbatim>\<open>sizeof(g_crash_file_path)\<close> is the declared 256.\<close>

definition crash_handler_init ::
  "mem \<Rightarrow> int \<Rightarrow> globals \<times> os_state \<Rightarrow> fault + (globals \<times> os_state)" where
  "crash_handler_init crash_file_path ret = (\<lambda>(g, os).
     bindF (safe_strcpy (g_crash_file_path g) crash_file_path 256) (\<lambda>(n, path).
     bindF (sys_open crash_file_path ret os) (\<lambda>(fd, os).
     install_handlers 0 crash_sigaction (g\<lparr>g_crash_file_path := path, g_crash_fd := fd\<rparr>, os))))"

section \<open>Reference notions for the claims\<close>

text \<open>
  Positional notation as the specification words it: the digits of \<open>n\<close> in base \<open>b\<close>
  from the lowercase alphabet, most significant first, \<open>0\<close> written as one digit; and the
  decoding of such a text back to a number.
\<close>

definition digit_char :: "nat \<Rightarrow> char" where
  "digit_char k = ''0123456789abcdef'' ! k"

definition digit_val :: "char \<Rightarrow> nat" where
  "digit_val c = length (takeWhile (\<lambda>d. d \<noteq> c) ''0123456789abcdef'')"

function lsd_digits :: "nat \<Rightarrow> nat \<Rightarrow> nat list" where
  "lsd_digits b n = (if n = 0 \<or> b < 2 then [] else (n mod b) # lsd_digits b (n div b))"
  by pat_completeness auto
termination
  by (relation "measure snd") auto

definition render :: "nat \<Rightarrow> nat \<Rightarrow> string" where
  "render b n = (if n = 0 then ''0'' else map digit_char (rev (lsd_digits b n)))"

definition parse_digits :: "nat \<Rightarrow> string \<Rightarrow> nat" where
  "parse_digits b s = foldl (\<lambda>a c. a * b + digit_val c) 0 s"


text \<open>An array after a string was stored at its start: the characters, the NUL, the rest as before.\<close>

definition put_string :: "mem \<Rightarrow> string \<Rightarrow> mem" where
  "put_string m s = map Some s @ Some NUL # drop (length s + 1) m"

text \<open>
  The claim about the bounded copy, as the specification states it for a destination
  capacity \<open>c\<close>: the copy runs, leaves every byte from index \<open>c\<close> on as it was, copies at
  most \<open>c - 1\<close> characters and leaves a NUL among the first \<open>c\<close> bytes.
\<close>

definition strcpy_within :: "mem \<Rightarrow> mem \<Rightarrow> int \<Rightarrow> bool" where
  "strcpy_within dest src c =
     (case safe_strcpy dest src c of
        Inl e \<Rightarrow> False
      | Inr (n, dest') \<Rightarrow>
          length dest' = length dest \<and> drop (nat c) dest' = drop (nat c) dest
          \<and> n \<le> c - 1 \<and> Some NUL \<in> set (take (nat c) dest'))"

text \<open>The frames a capture of depth \<open>d\<close> records from a stack: the first \<open>d\<close> that are not 0.\<close>

definition recorded :: "int \<Rightarrow> 64 word list \<Rightarrow> 64 word list" where
  "recorded d stack = take (nat d) (filter (\<lambda>pc. pc \<noteq> 0) stack)"

text \<open>
  The crash artifact as the specification lays it out. The canonical name of a signal, by
  the table of monitored signals; the calls that write one record to a descriptor; and
  the text that a sequence of calls writes to a descriptor when every \<^verbatim>\<open>write\<close> is
  carried out in full.
\<close>

definition signal_names :: "(int \<times> string) list" where
  "signal_names =
     [(SIGSEGV, ''SIGSEGV''), (SIGABRT, ''SIGABRT''), (SIGBUS, ''SIGBUS''),
      (SIGFPE, ''SIGFPE''), (SIGILL, ''SIGILL''), (SIGTRAP, ''SIGTRAP'')]"

definition canonical_name :: "int \<Rightarrow> string" where
  "canonical_name sig = (case map_of signal_names sig of Some name \<Rightarrow> name | None \<Rightarrow> ''UNKNOWN'')"

definition hex_line :: "64 word \<Rightarrow> string" where
  "hex_line a = ''0x'' @ render 16 (unat a) @ newline"

definition artifact :: "int \<Rightarrow> 64 word \<Rightarrow> 64 word list \<Rightarrow> string" where
  "artifact sig addr frames =
     canonical_name sig @ newline @ hex_line addr @ concat (map hex_line frames)"

definition frame_calls :: "int \<Rightarrow> 64 word list \<Rightarrow> syscall list" where
  "frame_calls fd frames =
     concat (map (\<lambda>pc. [SysWrite fd ''0x'', SysWrite fd (render 16 (unat pc)),
                          SysWrite fd newline]) frames)"

definition record_calls :: "int \<Rightarrow> int \<Rightarrow> 64 word \<Rightarrow> 64 word list \<Rightarrow> syscall list" where
  "record_calls fd sig addr frames =
     [SysWrite fd (canonical_name sig), SysWrite fd newline,
      SysWrite fd ''0x'', SysWrite fd (render 16 (unat addr)), SysWrite fd newline]
     @ frame_calls fd frames"

fun payload :: "int \<Rightarrow> syscall \<Rightarrow> string" where
  "payload fd (SysWrite fd' bytes) = (if fd' = fd then bytes else [])"
| "payload fd call = []"

definition written :: "int \<Rightarrow> syscall list \<Rightarrow> string" where
  "written fd cs = concat (map (payload fd) cs)"

section \<open>Facts about the memory accesses\<close>

lemma bindF_Inr [simp]: "bindF (Inr x) f = f x"
  by (simp add: bindF_def)

lemma bindF_Inl [simp]: "bindF (Inl e) f = Inl e"
  by (simp add: bindF_def)

lemma rd_Some: "0 \<le> i \<Longrightarrow> nat i < length m \<Longrightarrow> m ! nat i = Some c \<Longrightarrow> rd m i = Inr c"
  by (simp add: rd_def)

lemma wr_ok: "0 \<le> i \<Longrightarrow> nat i < length m \<Longrightarrow> wr m i c = Inr (m[nat i := Some c])"
  by (simp add: wr_def)

section \<open>\<^verbatim>\<open>safe_itoa\<close> writes the positional notation\<close>

lemma digit_val_all: "list_all (\<lambda>k. digit_val (digit_char k) = k) [0..<16]"
  by code_simp

lemma digit_val_char: "k < 16 \<Longrightarrow> digit_val (digit_char k) = k"
  using digit_val_all by (simp add: list_all_iff)


lemma rd_lit: "k < length s \<Longrightarrow> rd (lit s) (int k) = Inr (s ! k)"
  by (simp add: rd_def lit_def nth_append)

lemma rd_lit_end: "rd (lit s) (int (length s)) = Inr NUL"
  by (simp add: rd_def lit_def nth_append)

lemma rd_digits: "k < 16 \<Longrightarrow> rd digits (int k) = Inr (digit_char k)"
  unfolding digits_def digit_char_def by (rule rd_lit) simp

lemma word_of_base:
  assumes "2 \<le> base" "base \<le> 16"
  shows "unat (word_of_int base :: 64 word) = nat base"
proof -
  have "uint (word_of_int base :: 64 word) = base"
    using assms by (simp add: uint_word_of_int)
  then show ?thesis by (simp add: unat_eq_nat_uint)
qed

lemma lsd_digits_step:
  "0 < n \<Longrightarrow> 2 \<le> b \<Longrightarrow> lsd_digits b n = (n mod b) # lsd_digits b (n div b)"
  by simp

lemma lsd_digits_0: "lsd_digits b 0 = []"
  by simp

declare lsd_digits.simps [simp del]
declare itoa_fill.simps [simp del]

lemma itoa_fill_digits:
  assumes b: "2 \<le> base" "base \<le> 16"
  shows "0 \<le> i \<Longrightarrow> length temp = 24 \<Longrightarrow>
         nat i + length (lsd_digits (nat base) (unat v)) \<le> 23 \<Longrightarrow>
         itoa_fill v base i temp =
           Inr (i + int (length (lsd_digits (nat base) (unat v))),
                take (nat i) temp
                @ map (\<lambda>k. Some (digit_char k)) (lsd_digits (nat base) (unat v))
                @ drop (nat i + length (lsd_digits (nat base) (unat v))) temp)"
  using b
proof (induction v base i temp rule: itoa_fill.induct)
  case (1 v base i temp)
  let ?W = "word_of_int base :: 64 word"
  let ?b = "nat base"
  have W: "unat ?W = ?b" using 1 by (simp add: word_of_base)
  have b2: "2 \<le> ?b" "?b \<le> 16" using 1 by simp_all
  have W0: "?W \<noteq> 0" using W b2 by (metis not_numeral_le_zero unat_0)
  show ?case
  proof (cases "v = 0")
    case True
    then show ?thesis
      using 1(2,3) by (subst itoa_fill.simps) (simp add: lsd_digits_0)
  next
    case False
    then have pos: "0 < unat v" by (simp add: unat_gt_0)
    have v0: "0 < v" using False by (simp add: word_greater_zero_iff)
    have step: "lsd_digits ?b (unat v) = (unat v mod ?b) # lsd_digits ?b (unat v div ?b)"
      using pos b2(1) by (rule lsd_digits_step)
    have i23: "i < INT_BUFFER_SIZE - 1"
      using 1(4) step 1(2) by (simp add: INT_BUFFER_SIZE_def)
    have dm: "unat (v mod ?W) = unat v mod ?b" "unat (v div ?W) = unat v div ?b"
      by (simp_all add: unat_mod unat_div W)
    have lt16: "unat v mod ?b < 16"
    proof -
      have "unat v mod ?b < ?b" using b2(1) by simp
      then show ?thesis using b2(2) by simp
    qed
    have rdd: "rd digits (uint (v mod ?W)) = Inr (digit_char (unat v mod ?b))"
      using rd_digits [OF lt16] dm by (simp add: uint_nat)
    have wrr: "wr temp i (digit_char (unat v mod ?b)) = Inr (temp[nat i := Some (digit_char (unat v mod ?b))])"
      using 1(2,3) i23 by (simp add: wr_def INT_BUFFER_SIZE_def)
    let ?t = "temp[nat i := Some (digit_char (unat v mod ?b))]"
    have IH: "itoa_fill (v div ?W) base (i + 1) ?t =
           Inr (i + 1 + int (length (lsd_digits ?b (unat v div ?b))),
                take (nat (i + 1)) ?t
                @ map (\<lambda>k. Some (digit_char k)) (lsd_digits ?b (unat v div ?b))
                @ drop (nat (i + 1) + length (lsd_digits ?b (unat v div ?b))) ?t)"
      using "1.IH" [OF _ W0 rdd wrr] v0 i23 1(2,3,4,5,6) step
      by (simp add: dm nat_add_distrib)
    have tk: "take (nat (i + 1)) ?t = take (nat i) temp @ [Some (digit_char (unat v mod ?b))]"
      using 1(2,3) i23 by (simp add: nat_add_distrib take_Suc_conv_app_nth INT_BUFFER_SIZE_def)
    have dr: "drop (nat (i + 1) + length (lsd_digits ?b (unat v div ?b))) ?t
          = drop (nat i + length (lsd_digits ?b (unat v))) temp"
      using 1(2) step by (simp add: nat_add_distrib)
    show ?thesis
      apply (subst itoa_fill.simps)
      using v0 i23 W0 rdd wrr IH tk dr step
      by simp
  qed
qed


declare itoa_emit.simps [simp del]

lemma itoa_emit_rev:
  "0 \<le> j \<Longrightarrow> i = int (length ds) \<Longrightarrow> take (length ds) temp = map Some ds \<Longrightarrow>
   length ds \<le> length temp \<Longrightarrow> nat j + length ds \<le> length buffer \<Longrightarrow>
   itoa_emit i j temp buffer =
     Inr (j + int (length ds),
          take (nat j) buffer @ map Some (rev ds) @ drop (nat j + length ds) buffer)"
proof (induction i j temp buffer arbitrary: ds rule: itoa_emit.induct)
  case (1 i j temp buffer)
  show ?case
  proof (cases "ds = []")
    case True
    then show ?thesis using 1(2,3) by (subst itoa_emit.simps) simp
  next
    case False
    then obtain ds' d where ds: "ds = ds' @ [d]"
      by (metis rev_exhaust)
    have ipos: "0 < i" using 1(3) ds by simp
    have l: "length ds' < length temp" using 1(5) ds by simp
    have "temp ! length ds' = (take (length ds) temp) ! length ds'"
      using ds by simp
    also have "\<dots> = Some d" using 1(4) ds by (simp add: nth_append)
    finally have tn: "temp ! length ds' = Some d" .
    have rdd: "rd temp (i - 1) = Inr d"
      using 1(3) ds l tn by (simp add: rd_def)
    have wrr: "wr buffer j d = Inr (buffer[nat j := Some d])"
      using 1(2,6) ds by (simp add: wr_def)
    let ?b = "buffer[nat j := Some d]"
    have tk': "take (length ds') temp = map Some ds'"
    proof -
      have "take (length ds') (take (length ds) temp) = take (length ds') (map Some ds)"
        using 1(4) by simp
      then show ?thesis using ds by simp
    qed
    have IH: "itoa_emit (i - 1) (j + 1) temp ?b =
        Inr (j + 1 + int (length ds'),
          take (nat (j + 1)) ?b @ map Some (rev ds') @ drop (nat (j + 1) + length ds') ?b)"
      using "1.IH" [OF ipos rdd wrr, of ds'] 1(2,3,5,6) ds tk' by (simp add: nat_add_distrib)
    have tk: "take (nat (j + 1)) ?b = take (nat j) buffer @ [Some d]"
      using 1(2,6) ds by (simp add: nat_add_distrib take_Suc_conv_app_nth)
    have dr: "drop (nat (j + 1) + length ds') ?b = drop (nat j + length ds) buffer"
      using 1(2) ds by (simp add: nat_add_distrib)
    show ?thesis
      apply (subst itoa_emit.simps)
      using ipos rdd wrr IH tk dr ds
      by simp
  qed
qed

lemma length_lsd_digits_pos: "0 < n \<Longrightarrow> 2 \<le> b \<Longrightarrow> 0 < length (lsd_digits b n)"
  by (simp add: lsd_digits_step)

lemma safe_itoa_zero:
  assumes "2 \<le> length buffer"
  shows "safe_itoa 0 buffer base = Inr (1, Some (CHR ''0'') # Some NUL # drop 2 buffer)"
proof -
  obtain x y rest where buf: "buffer = x # y # rest"
    using assms by (cases buffer; cases "tl buffer") auto
  show ?thesis unfolding buf by (simp add: safe_itoa_def wr_def)
qed

lemma wr_append_NUL:
  assumes "length cs < length buffer"
  shows "wr (map Some cs @ drop (length cs) buffer) (int (length cs)) c
           = Inr (map Some cs @ Some c # drop (length cs + 1) buffer)"
proof -
  have "drop (length cs) buffer \<noteq> []" using assms by simp
  then obtain x rest where d: "drop (length cs) buffer = x # rest"
    by (cases "drop (length cs) buffer") auto
  have "drop (Suc (length cs)) buffer = tl (drop (length cs) buffer)"
    by (simp add: drop_Suc tl_drop)
  then have r: "drop (length cs + 1) buffer = rest" using d by simp
  have "wr (map Some cs @ x # rest) (int (length cs)) c = Inr (map Some cs @ Some c # rest)"
    by (simp add: wr_def list_update_append)
  then show ?thesis unfolding d r .
qed

lemma safe_itoa_nonzero:
  assumes b: "2 \<le> base" "base \<le> 16" and nz: "v \<noteq> 0"
    and fit: "length (lsd_digits (nat base) (unat v)) \<le> 23"
    and cap: "length (lsd_digits (nat base) (unat v)) < length buffer"
  shows "safe_itoa v buffer base =
     Inr (int (length (lsd_digits (nat base) (unat v))),
          map Some (rev (map digit_char (lsd_digits (nat base) (unat v)))) @ Some NUL
            # drop (length (lsd_digits (nat base) (unat v)) + 1) buffer)"
proof -
  let ?ds = "lsd_digits (nat base) (unat v)"
  let ?cs = "map digit_char ?ds"
  let ?zs = "replicate (nat INT_BUFFER_SIZE) None :: mem"
  let ?t = "map Some ?cs @ drop (length ?ds) ?zs"
  have t0: "length ?zs = 24" by (simp add: INT_BUFFER_SIZE_def)
  have fill0: "itoa_fill v base 0 ?zs =
      Inr (0 + int (length ?ds),
           take (nat 0) ?zs @ map (\<lambda>k. Some (digit_char k)) ?ds @ drop (nat 0 + length ?ds) ?zs)"
    by (intro itoa_fill_digits [OF b _ t0]) (use fit in simp_all)
  have fill: "itoa_fill v base 0 ?zs = Inr (int (length ?ds), ?t)"
    unfolding fill0 by (simp add: comp_def)
  have emit0: "itoa_emit (int (length ?ds)) 0 ?t buffer =
      Inr (0 + int (length ?cs),
           take (nat 0) buffer @ map Some (rev ?cs) @ drop (nat 0 + length ?cs) buffer)"
    by (intro itoa_emit_rev) (use cap fit in \<open>simp_all add: INT_BUFFER_SIZE_def\<close>)
  have emit: "itoa_emit (int (length ?ds)) 0 ?t buffer =
      Inr (int (length ?ds), map Some (rev ?cs) @ drop (length (rev ?cs)) buffer)"
    unfolding emit0 by simp
  have wrr: "wr (map Some (rev ?cs) @ drop (length (rev ?cs)) buffer) (int (length (rev ?cs))) NUL
       = Inr (map Some (rev ?cs) @ Some NUL # drop (length (rev ?cs) + 1) buffer)"
    by (intro wr_append_NUL) (use cap in simp)
  have wrr': "wr (map Some (rev ?cs) @ drop (length (rev ?cs)) buffer) (int (length ?ds)) NUL
       = Inr (map Some (rev ?cs) @ Some NUL # drop (length ?ds + 1) buffer)"
    using wrr by simp
  show ?thesis
    unfolding safe_itoa_def using nz
    by (simp only: if_False fill bindF_Inr prod.case emit wrr')
qed

lemma length_render:
  "2 \<le> b \<Longrightarrow> 0 < n \<Longrightarrow> length (render b n) = length (lsd_digits b n)"
  by (simp add: render_def)

lemma safe_itoa_render:
  assumes b: "2 \<le> base" "base \<le> 16"
    and fit: "int (length (render (nat base) (unat v))) \<le> INT_BUFFER_SIZE - 1"
    and cap: "length (render (nat base) (unat v)) < length buffer"
  shows "safe_itoa v buffer base =
     Inr (int (length (render (nat base) (unat v))),
          map Some (render (nat base) (unat v)) @ Some NUL
            # drop (length (render (nat base) (unat v)) + 1) buffer)"
proof (cases "v = 0")
  case True
  then have r: "render (nat base) (unat v) = ''0''" by (simp add: render_def)
  have "2 \<le> length buffer" using cap unfolding r by simp
  from safe_itoa_zero [OF this, of base] show ?thesis
    unfolding True by (simp add: render_def numeral_2_eq_2)
next
  case False
  then have pos: "0 < unat v" by (simp add: unat_gt_0)
  then have r: "render (nat base) (unat v) = rev (map digit_char (lsd_digits (nat base) (unat v)))"
    by (simp add: render_def rev_map)
  have l: "length (render (nat base) (unat v)) = length (lsd_digits (nat base) (unat v))"
    unfolding r by simp
  have fit': "length (lsd_digits (nat base) (unat v)) \<le> 23"
    using fit unfolding l by (simp add: INT_BUFFER_SIZE_def)
  show ?thesis
    using safe_itoa_nonzero [OF b False fit'] cap unfolding l r by simp
qed

lemma parse_digits_snoc: "parse_digits b (s @ [c]) = parse_digits b s * b + digit_val c"
  by (simp add: parse_digits_def)

lemma lsd_digits_lt: "2 \<le> b \<Longrightarrow> k \<in> set (lsd_digits b n) \<Longrightarrow> k < b"
proof (induction b n rule: lsd_digits.induct)
  case (1 b n)
  show ?case
  proof (cases "n = 0")
    case True
    then show ?thesis using 1(3) by (simp add: lsd_digits_0)
  next
    case False
    then have st: "lsd_digits b n = (n mod b) # lsd_digits b (n div b)"
      using 1(2) by (intro lsd_digits_step) simp_all
    have "k = n mod b \<or> k \<in> set (lsd_digits b (n div b))"
      using 1(3) unfolding st by simp
    then show ?thesis
    proof
      assume "k = n mod b"
      then show ?thesis using 1(2) by simp
    next
      assume "k \<in> set (lsd_digits b (n div b))"
      then show ?thesis using "1.IH" False 1(2) by simp
    qed
  qed
qed

lemma parse_rev_lsd:
  "2 \<le> b \<Longrightarrow> b \<le> 16 \<Longrightarrow> parse_digits b (map digit_char (rev (lsd_digits b n))) = n"
proof (induction b n rule: lsd_digits.induct)
  case (1 b n)
  show ?case
  proof (cases "n = 0")
    case True
    then show ?thesis by (simp add: lsd_digits_0 parse_digits_def)
  next
    case False
    then have st: "lsd_digits b n = (n mod b) # lsd_digits b (n div b)"
      using 1(2) by (intro lsd_digits_step) simp_all
    have "n mod b < b" using 1(2) by simp
    then have lt: "n mod b < 16" using 1(3) by simp
    have IH: "parse_digits b (map digit_char (rev (lsd_digits b (n div b)))) = n div b"
      using "1.IH" False 1(2,3) by simp
    show ?thesis
      unfolding st by (simp add: parse_digits_snoc IH digit_val_char [OF lt])
  qed
qed

lemma parse_render: "2 \<le> b \<Longrightarrow> b \<le> 16 \<Longrightarrow> parse_digits b (render b n) = n"
proof (cases "n = 0")
  case True
  then show ?thesis by (simp add: render_def parse_digits_def digit_val_def)
next
  case False
  assume "2 \<le> b" "b \<le> 16"
  then show ?thesis using False parse_rev_lsd [of b n] by (simp add: render_def)
qed

lemma length_lsd_digits_le:
  "2 \<le> b \<Longrightarrow> n < b ^ k \<Longrightarrow> length (lsd_digits b n) \<le> k"
proof (induction b n arbitrary: k rule: lsd_digits.induct)
  case (1 b n)
  show ?case
  proof (cases "n = 0")
    case True
    then show ?thesis by (simp add: lsd_digits_0)
  next
    case False
    then have st: "lsd_digits b n = (n mod b) # lsd_digits b (n div b)"
      using 1(2) by (intro lsd_digits_step) simp_all
    obtain k' where k: "k = Suc k'" using 1(3) False by (cases k) auto
    have "n < b * b ^ k'" using 1(3) k by simp
    then have "n div b < b ^ k'"
      using 1(2) by (simp add: less_mult_imp_div_less mult.commute)
    then have "length (lsd_digits b (n div b)) \<le> k'" using "1.IH" [of k'] False 1(2) by simp
    then show ?thesis unfolding st k by simp
  qed
qed


lemma digit_char_all: "list_all (\<lambda>k. digit_char k \<noteq> NUL) [0..<16]"
  by code_simp

lemma digit_char_not_NUL: "k < 16 \<Longrightarrow> digit_char k \<noteq> NUL"
  using digit_char_all by (simp add: list_all_iff)

lemma digit_char_alphabet: "k < 16 \<Longrightarrow> digit_char k \<in> set ''0123456789abcdef''"
  unfolding digit_char_def by (rule nth_mem) simp

lemma render_chars:
  assumes "2 \<le> b" "b \<le> 16" "c \<in> set (render b n)"
  shows "c \<in> set ''0123456789abcdef''"
proof (cases "n = 0")
  case True
  then show ?thesis using assms(3) by (simp add: render_def)
next
  case False
  then obtain k where k: "k \<in> set (lsd_digits b n)" "c = digit_char k"
    using assms(3) by (auto simp: render_def)
  have "k < 16" using lsd_digits_lt [OF assms(1) k(1)] assms(2) by simp
  then show ?thesis unfolding k(2) by (rule digit_char_alphabet)
qed

lemma NUL_not_digit: "NUL \<notin> set ''0123456789abcdef''"
  by (simp add: NUL_def)

lemma render_no_NUL: "2 \<le> b \<Longrightarrow> b \<le> 16 \<Longrightarrow> NUL \<notin> set (render b n)"
  using render_chars NUL_not_digit by blast

lemma rd_cstr_string:
  "NUL \<notin> set s \<Longrightarrow> rd_cstr (map Some s @ Some NUL # rest) = Inr s"
  by (induction s) auto

lemma rd_bytes_string: "rd_bytes (map Some s @ rest) (length s) = Inr s"
  by (induction s) auto

declare strlen_loop.simps [simp del]

lemma strlen_loop_string:
  assumes "NUL \<notin> set s"
  shows "k \<le> length s \<Longrightarrow>
         strlen_loop (map Some s @ Some NUL # rest) (int k) = Inr (int (length s))"
proof (induction "length s - k" arbitrary: k)
  case 0
  then have k: "k = length s" by simp
  show ?case unfolding k
    by (subst strlen_loop.simps) (simp add: rd_def nth_append)
next
  case (Suc d)
  then have lt: "k < length s" by simp
  then have "s ! k \<noteq> NUL" using assms by (metis nth_mem)
  moreover have "strlen_loop (map Some s @ Some NUL # rest) (int (Suc k)) = Inr (int (length s))"
    using Suc by (intro Suc.hyps(1)) simp_all
  ultimately show ?case using lt
    by (subst strlen_loop.simps) (simp add: rd_def nth_append add.commute)
qed

lemma lsd_digits_nth:
  "2 \<le> b \<Longrightarrow> k < length (lsd_digits b n) \<Longrightarrow> lsd_digits b n ! k = (n div b ^ k) mod b"
proof (induction b n arbitrary: k rule: lsd_digits.induct)
  case (1 b n)
  show ?case
  proof (cases "n = 0")
    case True
    then show ?thesis using 1(3) by (simp add: lsd_digits_0)
  next
    case False
    then have st: "lsd_digits b n = (n mod b) # lsd_digits b (n div b)"
      using 1(2) by (intro lsd_digits_step) simp_all
    show ?thesis
    proof (cases k)
      case 0
      then show ?thesis unfolding st by simp
    next
      case (Suc k')
      have "k' < length (lsd_digits b (n div b))" using 1(3) unfolding st Suc by simp
      then have "lsd_digits b (n div b) ! k' = (n div b div b ^ k') mod b"
        using "1.IH" [of k'] False 1(2) by simp
      then show ?thesis unfolding st Suc by (simp add: div_mult2_eq)
    qed
  qed
qed

lemma render_nth:
  assumes "2 \<le> b" "k < length (render b n)"
  shows "render b n ! k = digit_char ((n div b ^ (length (render b n) - 1 - k)) mod b)"
proof (cases "n = 0")
  case True
  then show ?thesis using assms by (simp add: render_def digit_char_def)
next
  case False
  let ?ds = "lsd_digits b n"
  have r: "render b n = map digit_char (rev ?ds)" using False by (simp add: render_def)
  have k: "k < length ?ds" using assms(2) unfolding r by simp
  then have k': "length ?ds - 1 - k < length ?ds" by simp
  have "render b n ! k = digit_char (?ds ! (length ?ds - 1 - k))"
    unfolding r using k by (simp add: rev_nth)
  also have "?ds ! (length ?ds - 1 - k) = (n div b ^ (length ?ds - 1 - k)) mod b"
    using lsd_digits_nth [OF assms(1) k'] .
  finally show ?thesis unfolding r by simp
qed

lemma length_render_le:
  assumes "2 \<le> b" "n < b ^ k" "0 < k"
  shows "length (render b n) \<le> k"
proof (cases "n = 0")
  case True
  then show ?thesis using assms(3) by (simp add: render_def)
next
  case False
  then show ?thesis using length_lsd_digits_le [OF assms(1,2)] by (simp add: render_def)
qed



subsection \<open>The round trip and the hexadecimal case\<close>

text \<open>
  C4. For a value \<open>v\<close> and a base from 2 to 16 such that \<open>v\<close> has at most
  \<open>INT_BUFFER_SIZE - 1\<close> digits in that base, \<open>safe_itoa\<close> returns, in a buffer of
  at least \<open>INT_BUFFER_SIZE\<close> bytes, the positional notation of \<open>v\<close>: decoding the string
  in that base gives \<open>v\<close> back, the digit at position \<open>k\<close> is the one of weight
  \<open>base ^ (length - 1 - k)\<close> and comes from the lowercase alphabet, the string ends with NUL
  at the index returned, and 0 gives the string \<open>0\<close>.
\<close>

theorem safe_itoa_roundtrip:
  assumes "2 \<le> base" and "base \<le> 16"
    and "unat v < nat base ^ nat (INT_BUFFER_SIZE - 1)"
    and "nat INT_BUFFER_SIZE \<le> length buffer"
  shows "safe_itoa v buffer base
           = Inr (int (length (render (nat base) (unat v))),
                  put_string buffer (render (nat base) (unat v)))
       \<and> rd_cstr (put_string buffer (render (nat base) (unat v)))
           = Inr (render (nat base) (unat v))
       \<and> rd (put_string buffer (render (nat base) (unat v)))
             (int (length (render (nat base) (unat v)))) = Inr NUL
       \<and> parse_digits (nat base) (render (nat base) (unat v)) = unat v
       \<and> (\<forall>k < length (render (nat base) (unat v)).
             render (nat base) (unat v) ! k
               = digit_char ((unat v div nat base ^ (length (render (nat base) (unat v)) - 1 - k))
                             mod nat base))
       \<and> set (render (nat base) (unat v)) \<subseteq> set ''0123456789abcdef''
       \<and> (v = 0 \<longrightarrow> render (nat base) (unat v) = ''0'')"
proof -
  let ?b = "nat base"
  let ?r = "render ?b (unat v)"
  have b: "2 \<le> ?b" "?b \<le> 16" using assms(1,2) by simp_all
  have len: "length ?r \<le> 23"
    using length_render_le [OF b(1), of "unat v" 23] assms(3) by (simp add: INT_BUFFER_SIZE_def)
  have fit: "int (length ?r) \<le> INT_BUFFER_SIZE - 1"
    using len by (simp add: INT_BUFFER_SIZE_def)
  have cap: "length ?r < length buffer"
    using len assms(4) by (simp add: INT_BUFFER_SIZE_def)
  have run: "safe_itoa v buffer base = Inr (int (length ?r), put_string buffer ?r)"
    unfolding put_string_def by (rule safe_itoa_render [OF assms(1,2) fit cap])
  have nonul: "NUL \<notin> set ?r" by (rule render_no_NUL [OF b])
  have str: "rd_cstr (put_string buffer ?r) = Inr ?r"
    unfolding put_string_def by (rule rd_cstr_string [OF nonul])
  have endnul: "rd (put_string buffer ?r) (int (length ?r)) = Inr NUL"
    by (simp add: put_string_def rd_def nth_append)
  have decode: "parse_digits ?b ?r = unat v" by (rule parse_render [OF b])
  have pos: "\<forall>k < length ?r. ?r ! k = digit_char ((unat v div ?b ^ (length ?r - 1 - k)) mod ?b)"
    using render_nth [OF b(1)] by blast
  have alph: "set ?r \<subseteq> set ''0123456789abcdef''"
    using render_chars [OF b] by blast
  have zero: "v = 0 \<longrightarrow> ?r = ''0''" by (simp add: render_def)
  show ?thesis using run str endnul decode pos alph zero by blast
qed

theorem safe_itoa_roundtrip_witness:
  "(2::int) \<le> 16 \<and> (16::int) \<le> 16
   \<and> unat (255 :: 64 word) < nat 16 ^ nat (INT_BUFFER_SIZE - 1)
   \<and> nat INT_BUFFER_SIZE \<le> length (replicate 24 (None :: char option))
   \<and> safe_itoa 255 (replicate 24 None) 16
        = Inr (int (length (render (nat 16) (unat (255 :: 64 word)))),
               put_string (replicate 24 None) (render (nat 16) (unat (255 :: 64 word))))
   \<and> parse_digits (nat 16) (render (nat 16) (unat (255 :: 64 word))) = unat (255 :: 64 word)"
proof -
  have h1: "(2::int) \<le> 16" and h2: "(16::int) \<le> 16" by simp_all
  have h3: "unat (255 :: 64 word) < nat 16 ^ nat (INT_BUFFER_SIZE - 1)"
    by (simp add: INT_BUFFER_SIZE_def)
  have h4: "nat INT_BUFFER_SIZE \<le> length (replicate 24 (None :: char option))"
    by (simp add: INT_BUFFER_SIZE_def)
  show ?thesis
    using safe_itoa_roundtrip [OF h1 h2 h3 h4] h1 h2 h3 h4 by blast
qed

text \<open>
  C10. In base 16 every 64-bit value has at most 16 digits, fewer than the
  \<open>INT_BUFFER_SIZE - 1 = 23\<close> that \<open>temp\<close> holds: \<open>safe_itoa\<close> writes the whole
  notation, which decodes to the value, and the count it returns is the length that a scan
  to the NUL finds.
\<close>

theorem safe_itoa_hex_complete:
  assumes "nat INT_BUFFER_SIZE \<le> length buffer"
  shows "length (render 16 (unat v)) \<le> 16
       \<and> int (length (render 16 (unat v))) < INT_BUFFER_SIZE - 1
       \<and> INT_BUFFER_SIZE - 1 = 23
       \<and> safe_itoa v buffer 16
           = Inr (int (length (render 16 (unat v))), put_string buffer (render 16 (unat v)))
       \<and> parse_digits 16 (render 16 (unat v)) = unat v
       \<and> strlen_loop (put_string buffer (render 16 (unat v))) 0
           = Inr (int (length (render 16 (unat v))))"
proof -
  let ?r = "render 16 (unat v)"
  have "unat v < 2 ^ 64" using unsigned_less [of v, where 'a = nat] by simp
  then have lt: "unat v < 16 ^ 16" by simp
  have len: "length ?r \<le> 16" by (rule length_render_le [OF _ lt]) simp_all
  have fit: "int (length ?r) \<le> INT_BUFFER_SIZE - 1"
    using len by (simp add: INT_BUFFER_SIZE_def)
  have cap: "length ?r < length buffer"
    using len assms by (simp add: INT_BUFFER_SIZE_def)
  have run: "safe_itoa v buffer 16 = Inr (int (length ?r), put_string buffer ?r)"
    unfolding put_string_def using safe_itoa_render [of 16 v buffer] fit cap by simp
  have nonul: "NUL \<notin> set ?r" by (rule render_no_NUL) simp_all
  have scan: "strlen_loop (put_string buffer ?r) 0 = Inr (int (length ?r))"
    unfolding put_string_def using strlen_loop_string [OF nonul, of 0] by simp
  have decode: "parse_digits 16 ?r = unat v" by (rule parse_render) simp_all
  show ?thesis using len run scan decode by (simp add: INT_BUFFER_SIZE_def)
qed

theorem safe_itoa_hex_complete_witness:
  "nat INT_BUFFER_SIZE \<le> length (replicate 24 (None :: char option))
   \<and> safe_itoa (- 1) (replicate 24 None) 16
        = Inr (int (length (render 16 (unat (- 1 :: 64 word)))),
               put_string (replicate 24 None) (render 16 (unat (- 1 :: 64 word))))
   \<and> length (render 16 (unat (- 1 :: 64 word))) \<le> 16"
proof -
  have h: "nat INT_BUFFER_SIZE \<le> length (replicate 24 (None :: char option))"
    by (simp add: INT_BUFFER_SIZE_def)
  show ?thesis using safe_itoa_hex_complete [OF h, of "- 1"] h by blast
qed

section \<open>\<^verbatim>\<open>safe_strcpy\<close> stays within the capacity\<close>

declare strcpy_loop.simps [simp del]

lemma strcpy_loop_copies:
  assumes s: "NUL \<notin> set s"
    and n: "n \<le> length s" "int n \<le> c - 1" "n = length s \<or> int n = c - 1"
  shows "k \<le> n \<Longrightarrow> n < length dest \<Longrightarrow>
         strcpy_loop dest (map Some s @ Some NUL # rest) c (int k)
           = Inr (int n, take k dest @ map Some (drop k (take n s)) @ drop n dest)"
proof (induction "n - k" arbitrary: k dest)
  case 0
  then have k: "k = n" by simp
  let ?src = "map Some s @ Some NUL # rest"
  show ?case
  proof (cases "n = length s")
    case True
    have "rd ?src (int n) = Inr NUL" unfolding True by (simp add: rd_def nth_append)
    then show ?thesis unfolding k by (subst strcpy_loop.simps) simp
  next
    case False
    then have lt: "n < length s" and stop: "int n = c - 1" using n by simp_all
    have "rd ?src (int n) = Inr (s ! n)" using lt by (simp add: rd_def nth_append)
    then show ?thesis unfolding k using stop by (subst strcpy_loop.simps) simp
  qed
next
  case (Suc d)
  let ?src = "map Some s @ Some NUL # rest"
  have lt: "k < n" using Suc(2) by simp
  then have ks: "k < length s" using n(1) by simp
  have rdk: "rd ?src (int k) = Inr (s ! k)" using ks by (simp add: rd_def nth_append)
  have nonul: "s ! k \<noteq> NUL" using s ks by (metis nth_mem)
  have go: "int k < c - 1" using lt n(2) by simp
  have kd: "k < length dest" using lt Suc(4) by simp
  let ?d = "dest[k := Some (s ! k)]"
  have wrk: "wr dest (int k) (s ! k) = Inr ?d" using kd by (simp add: wr_def)
  have IH: "strcpy_loop ?d ?src c (int (Suc k))
      = Inr (int n, take (Suc k) ?d @ map Some (drop (Suc k) (take n s)) @ drop n ?d)"
    using Suc(2) lt Suc(4) by (intro Suc(1)) simp_all
  have tk: "take (Suc k) ?d = take k dest @ [Some (s ! k)]"
    using kd by (simp add: take_Suc_conv_app_nth)
  have dr: "drop n ?d = drop n dest" using lt by simp
  have "k < length (take n s)" using lt n(1) by simp
  then have "drop k (take n s) = (take n s) ! k # drop (Suc k) (take n s)"
    by (rule Cons_nth_drop_Suc [symmetric])
  then have ds: "drop k (take n s) = s ! k # drop (Suc k) (take n s)" using lt by simp
  have step: "strcpy_loop dest ?src c (int k) = strcpy_loop ?d ?src c (int (Suc k))"
    by (subst strcpy_loop.simps) (simp add: rdk nonul go wrk add.commute)
  show ?case unfolding step IH tk dr ds by simp
qed

lemma safe_strcpy_result:
  assumes "1 \<le> c" "nat c \<le> length dest" "NUL \<notin> set s"
  shows "safe_strcpy dest (map Some s @ Some NUL # rest) c
           = Inr (int (min (length s) (nat (c - 1))),
                  put_string dest (take (min (length s) (nat (c - 1))) s))"
proof -
  let ?n = "min (length s) (nat (c - 1))"
  have n: "?n \<le> length s" "int ?n \<le> c - 1" "?n = length s \<or> int ?n = c - 1"
    using assms(1) by (auto simp: min_def)
  have "?n \<le> nat (c - 1)" by simp
  moreover have "nat (c - 1) < nat c" using assms(1) by simp
  ultimately have nd: "?n < length dest" using assms(2) by linarith
  have loop: "strcpy_loop dest (map Some s @ Some NUL # rest) c 0
           = Inr (int ?n, map Some (take ?n s) @ drop ?n dest)"
    using strcpy_loop_copies [OF assms(3) n, of 0 dest rest] nd by simp
  have len: "length (take ?n s) = ?n" by simp
  have "wr (map Some (take ?n s) @ drop (length (take ?n s)) dest) (int (length (take ?n s))) NUL
          = Inr (map Some (take ?n s) @ Some NUL # drop (length (take ?n s) + 1) dest)"
    by (rule wr_append_NUL) (use nd in simp)
  then have wrn: "wr (map Some (take ?n s) @ drop ?n dest) (int ?n) NUL
          = Inr (put_string dest (take ?n s))"
    unfolding put_string_def len .
  show ?thesis unfolding safe_strcpy_def loop by (simp only: bindF_Inr prod.case wrn)
qed

lemma lit_append: "lit s @ rest = map Some s @ Some NUL # rest"
  by (simp add: lit_def)

lemma length_put_string: "length s < length m \<Longrightarrow> length (put_string m s) = length m"
  by (simp add: put_string_def)

lemma drop_put_string: "length s < k \<Longrightarrow> drop k (put_string m s) = drop k m"
proof -
  assume a: "length s < k"
  then obtain j where k: "k = Suc (length s + j)"
    using less_imp_Suc_add by blast
  show ?thesis unfolding k put_string_def by (simp add: add.commute)
qed

lemma nth_put_string_end: "put_string m s ! length s = Some NUL"
  by (simp add: put_string_def nth_append)

lemma take_put_string: "take (length s) (put_string m s) = map Some s"
  by (simp add: put_string_def)

text \<open>
  C5, as stated, fails for the capacity 0: no byte lies within the first 0 bytes, yet the
  terminator is written at index 0.
\<close>

theorem safe_strcpy_capacity_zero_counterexample:
  "safe_strcpy [Some (CHR ''x''), Some (CHR ''y'')] (lit ''a'') 0
     = Inr (0, [Some NUL, Some (CHR ''y'')])
   \<and> \<not> strcpy_within [Some (CHR ''x''), Some (CHR ''y'')] (lit ''a'') 0"
  by code_simp

text \<open>
  C5, amended. For a capacity \<open>c\<close> of at least 1, a destination of at least \<open>c\<close> bytes and
  a source array holding the string \<open>s\<close>, \<open>safe_strcpy\<close> stores the first
  \<open>min (length s) (c - 1)\<close> characters of \<open>s\<close> and a NUL after them, returns that count, and
  changes no byte from index \<open>c\<close> on: the claim as stated holds.
\<close>

theorem safe_strcpy_bounded:
  assumes "1 \<le> c" and "nat c \<le> length dest" and "NUL \<notin> set s"
  shows "safe_strcpy dest (lit s @ rest) c
           = Inr (int (min (length s) (nat (c - 1))),
                  put_string dest (take (min (length s) (nat (c - 1))) s))
       \<and> strcpy_within dest (lit s @ rest) c
       \<and> take (min (length s) (nat (c - 1)))
            (put_string dest (take (min (length s) (nat (c - 1))) s))
           = map Some (take (min (length s) (nat (c - 1))) s)
       \<and> put_string dest (take (min (length s) (nat (c - 1))) s) ! min (length s) (nat (c - 1))
           = Some NUL
       \<and> int (min (length s) (nat (c - 1))) < c"
proof -
  let ?n = "min (length s) (nat (c - 1))"
  let ?t = "take ?n s"
  have len: "length ?t = ?n" by simp
  have "?n \<le> nat (c - 1)" by simp
  moreover have "nat (c - 1) < nat c" using assms(1) by simp
  ultimately have nc: "?n < nat c" by linarith
  then have nd: "length ?t < length dest" using assms(2) by simp
  have run: "safe_strcpy dest (lit s @ rest) c = Inr (int ?n, put_string dest ?t)"
    unfolding lit_append by (rule safe_strcpy_result [OF assms])
  have l: "length (put_string dest ?t) = length dest"
    by (rule length_put_string [OF nd])
  have d: "drop (nat c) (put_string dest ?t) = drop (nat c) dest"
    by (rule drop_put_string) (use nc in simp)
  have e: "put_string dest ?t ! ?n = Some NUL"
    using nth_put_string_end [of dest ?t] unfolding len .
  have "?n < length (take (nat c) (put_string dest ?t))"
    using nc assms(2) l by simp
  moreover have "take (nat c) (put_string dest ?t) ! ?n = Some NUL"
    using nc e by simp
  ultimately have m: "Some NUL \<in> set (take (nat c) (put_string dest ?t))"
    by (metis nth_mem)
  have b: "int ?n \<le> c - 1" using nc assms(1) by linarith
  have within: "strcpy_within dest (lit s @ rest) c"
    unfolding strcpy_within_def run using l d m b by simp
  have t: "take ?n (put_string dest ?t) = map Some ?t"
    using take_put_string [of ?t dest] unfolding len .
  show ?thesis using run within t e b by simp
qed

theorem safe_strcpy_bounded_witness:
  "(1::int) \<le> 4 \<and> nat 4 \<le> length (replicate 4 (None :: char option))
   \<and> NUL \<notin> set ''hello''
   \<and> safe_strcpy (replicate 4 None) (lit ''hello'' @ []) 4
        = Inr (int (min (length ''hello'') (nat (4 - 1))),
               put_string (replicate 4 None) (take (min (length ''hello'') (nat (4 - 1))) ''hello''))
   \<and> strcpy_within (replicate 4 None) (lit ''hello'' @ []) 4"
proof -
  have h1: "(1::int) \<le> 4" by simp
  have h2: "nat 4 \<le> length (replicate 4 (None :: char option))" by simp
  have h3: "NUL \<notin> set ''hello''" by (simp add: NUL_def)
  show ?thesis using safe_strcpy_bounded [OF h1 h2 h3, of "[]"] h1 h2 h3 by blast
qed

section \<open>\<^verbatim>\<open>safe_write\<close> issues one write\<close>

lemma strlen_loop_lit:
  "NUL \<notin> set s \<Longrightarrow> strlen_loop (lit s @ rest) 0 = Inr (int (length s))"
  unfolding lit_append using strlen_loop_string [of s 0 rest] by simp

lemma rd_bytes_lit: "rd_bytes (lit s @ rest) (length s) = Inr s"
  unfolding lit_append by (rule rd_bytes_string)

lemma safe_write_string:
  assumes "0 \<le> fd" "NUL \<notin> set s"
  shows "safe_write fd (Some (lit s @ rest)) os = Inr (os\<lparr>calls := calls os @ [SysWrite fd s]\<rparr>)"
  using assms by (simp add: safe_write_def strlen_loop_lit sys_write_def rd_bytes_lit)

lemma safe_write_lit:
  assumes "0 \<le> fd" "NUL \<notin> set s"
  shows "safe_write fd (Some (lit s)) os = Inr (os\<lparr>calls := calls os @ [SysWrite fd s]\<rparr>)"
  using safe_write_string [OF assms, of "[]"] by simp

lemma safe_write_put_string:
  assumes "0 \<le> fd" "NUL \<notin> set s"
  shows "safe_write fd (Some (put_string m s)) os = Inr (os\<lparr>calls := calls os @ [SysWrite fd s]\<rparr>)"
  using safe_write_string [OF assms, of "drop (length s + 1) m"]
  by (simp add: put_string_def lit_append)

text \<open>
  C7. With a negative descriptor or a null pointer \<open>safe_write\<close> leaves the system as it
  was: no call is made. With a descriptor that is not negative and an array holding the
  string \<open>s\<close>, the scan finds the length of \<open>s\<close> and exactly one call is added, a
  \<^verbatim>\<open>write\<close> of the bytes of \<open>s\<close> to that descriptor; nothing else changes, whatever
  \<^verbatim>\<open>write\<close> returns.
\<close>

theorem safe_write_once:
  "(fd < 0 \<or> str = None \<longrightarrow> safe_write fd str os = Inr os)
   \<and> (0 \<le> fd \<and> NUL \<notin> set s \<longrightarrow>
        strlen_loop (lit s @ rest) 0 = Inr (int (length s))
        \<and> safe_write fd (Some (lit s @ rest)) os
            = Inr (os\<lparr>calls := calls os @ [SysWrite fd s]\<rparr>))"
  using safe_write_string [of fd s rest os] strlen_loop_lit [of s rest]
  by (auto simp: safe_write_def)

theorem safe_write_once_witness:
  "safe_write (- 1) (Some (lit ''abc'')) \<lparr>actions = (\<lambda>_. zero_sigaction), calls = []\<rparr>
     = Inr \<lparr>actions = (\<lambda>_. zero_sigaction), calls = []\<rparr>
   \<and> (0::int) \<le> 3 \<and> NUL \<notin> set ''abc''
   \<and> safe_write 3 (Some (lit ''abc'' @ [None])) \<lparr>actions = (\<lambda>_. zero_sigaction), calls = []\<rparr>
       = Inr \<lparr>actions = (\<lambda>_. zero_sigaction), calls = [SysWrite 3 ''abc'']\<rparr>"
proof -
  have h: "(0::int) \<le> 3 \<and> NUL \<notin> set ''abc''" by (simp add: NUL_def)
  have n: "(- 1 :: int) < 0 \<or> Some (lit ''abc'') = None" by simp
  show ?thesis
    using safe_write_once [of "- 1" "Some (lit ''abc'')" "\<lparr>actions = (\<lambda>_. zero_sigaction), calls = []\<rparr>" "''abc''" "[]"]
      safe_write_once [of 3 None "\<lparr>actions = (\<lambda>_. zero_sigaction), calls = []\<rparr>" "''abc''" "[None]"]
      h n
    by simp
qed

section \<open>The unwinder records the frames that are not 0, up to the depth\<close>

lemma unwind_walk:
  "nat d \<le> length b \<Longrightarrow> k \<le> length b \<Longrightarrow>
   Unwind_Backtrace unwind_callback stack \<lparr>bt_buffer = b, bt_max_depth = d, bt_count = int k\<rparr>
     = Inr \<lparr>bt_buffer = take k b @ take (nat d - k) (filter (\<lambda>pc. pc \<noteq> 0) stack)
                           @ drop (k + length (take (nat d - k) (filter (\<lambda>pc. pc \<noteq> 0) stack))) b,
            bt_max_depth = d,
            bt_count = int (k + length (take (nat d - k) (filter (\<lambda>pc. pc \<noteq> 0) stack)))\<rparr>"
proof (induction stack arbitrary: b k)
  case Nil
  then show ?case by simp
next
  case (Cons pc stack)
  show ?case
  proof (cases "int k \<ge> d")
    case True
    then have "nat d - k = 0" by simp
    then show ?thesis using True by (simp add: unwind_callback_def)
  next
    case False
    then have kd: "k < nat d" by simp
    then have kb: "k < length b" using Cons.prems(1) by simp
    obtain j where j: "nat d - k = Suc j" using kd by (cases "nat d - k") simp_all
    then have j': "nat d - Suc k = j" by simp
    show ?thesis
    proof (cases "pc = 0")
      case True
      show ?thesis
        using False True Cons.IH [OF Cons.prems] by (simp add: unwind_callback_def)
    next
      case nz: False
      let ?b = "b[k := pc]"
      have w: "wr_at b (int k) pc = Inr ?b" using kb by (simp add: wr_at_def)
      have IH: "Unwind_Backtrace unwind_callback stack
                  \<lparr>bt_buffer = ?b, bt_max_depth = d, bt_count = int (Suc k)\<rparr>
         = Inr \<lparr>bt_buffer = take (Suc k) ?b @ take (nat d - Suc k) (filter (\<lambda>pc. pc \<noteq> 0) stack)
                   @ drop (Suc k + length (take (nat d - Suc k) (filter (\<lambda>pc. pc \<noteq> 0) stack))) ?b,
                bt_max_depth = d,
                bt_count = int (Suc k + length (take (nat d - Suc k) (filter (\<lambda>pc. pc \<noteq> 0) stack)))\<rparr>"
        using Cons.prems kb by (intro Cons.IH) simp_all
      have tk: "take (Suc k) ?b = take k b @ [pc]"
        using kb by (simp add: take_Suc_conv_app_nth)
      have step: "Unwind_Backtrace unwind_callback (pc # stack)
                    \<lparr>bt_buffer = b, bt_max_depth = d, bt_count = int k\<rparr>
          = Unwind_Backtrace unwind_callback stack
                  \<lparr>bt_buffer = ?b, bt_max_depth = d, bt_count = int (Suc k)\<rparr>"
        using False nz w by (simp add: unwind_callback_def add.commute)
      show ?thesis unfolding step IH tk using nz by (simp add: j j')
    qed
  qed
qed

lemma capture_backtrace_recorded:
  assumes "nat d \<le> length buffer"
  shows "capture_backtrace buffer d stack
           = Inr (int (length (recorded d stack)),
                  recorded d stack @ drop (length (recorded d stack)) buffer)"
  using unwind_walk [OF assms, of 0 stack]
  by (simp add: capture_backtrace_def recorded_def)

lemma length_recorded: "0 \<le> d \<Longrightarrow> int (length (recorded d stack)) \<le> d"
  by (simp add: recorded_def)

lemma length_recorded_nat: "length (recorded d stack) \<le> nat d"
  by (simp add: recorded_def)

lemma zero_not_recorded: "0 \<notin> set (recorded d stack)"
proof
  assume "0 \<in> set (recorded d stack)"
  then have "0 \<in> set (filter (\<lambda>pc. pc \<noteq> 0) stack)"
    unfolding recorded_def by (rule in_set_takeD)
  then show False by simp
qed

lemma recorded_append:
  "nat d \<le> length (filter (\<lambda>pc. pc \<noteq> 0) stack) \<Longrightarrow> recorded d (stack @ outer) = recorded d stack"
  by (simp add: recorded_def)

lemma recorded_short:
  "length (filter (\<lambda>pc. pc \<noteq> 0) stack) \<le> nat d \<Longrightarrow> recorded d stack = filter (\<lambda>pc. pc \<noteq> 0) stack"
  by (simp add: recorded_def)

text \<open>
  C6. For every stack and every depth \<open>d\<close> that the buffer has room for,
  \<open>capture_backtrace\<close> puts at the start of the buffer the frames of the stack that are not
  0, in the order walked, up to \<open>d\<close> of them, and leaves the rest of the buffer as it was; a
  0 is neither recorded nor ends the walk; once \<open>d\<close> frames are recorded the callback ends
  the walk, so the frames further out have no effect; the count returned is the number of frames
  recorded and, for a depth that is not negative, at most \<open>d\<close>. (For a negative \<open>d\<close> nothing
  is recorded and 0 is returned.)
\<close>

theorem capture_backtrace_nonzero_frames:
  assumes "nat d \<le> length buffer"
  shows "capture_backtrace buffer d stack
           = Inr (int (length (recorded d stack)),
                  recorded d stack @ drop (length (recorded d stack)) buffer)
       \<and> recorded d stack = take (nat d) (filter (\<lambda>pc. pc \<noteq> 0) stack)
       \<and> 0 \<notin> set (recorded d stack)
       \<and> (length (filter (\<lambda>pc. pc \<noteq> 0) stack) \<le> nat d
            \<longrightarrow> recorded d stack = filter (\<lambda>pc. pc \<noteq> 0) stack)
       \<and> (nat d \<le> length (filter (\<lambda>pc. pc \<noteq> 0) stack)
            \<longrightarrow> capture_backtrace buffer d (stack @ outer) = capture_backtrace buffer d stack)
       \<and> (bt_max_depth state \<le> bt_count state
            \<longrightarrow> unwind_callback pc state = Inr (URC_END_OF_STACK, state))
       \<and> (0 \<le> d \<longrightarrow> int (length (recorded d stack)) \<le> d)"
proof -
  have run: "\<And>st. capture_backtrace buffer d st
           = Inr (int (length (recorded d st)), recorded d st @ drop (length (recorded d st)) buffer)"
    by (rule capture_backtrace_recorded [OF assms])
  have stop: "nat d \<le> length (filter (\<lambda>pc. pc \<noteq> 0) stack)
            \<longrightarrow> capture_backtrace buffer d (stack @ outer) = capture_backtrace buffer d stack"
    unfolding run by (simp add: recorded_append)
  have cb: "bt_max_depth state \<le> bt_count state
            \<longrightarrow> unwind_callback pc state = Inr (URC_END_OF_STACK, state)"
    by (simp add: unwind_callback_def)
  show ?thesis
    using run [of stack] stop cb zero_not_recorded [of d stack] recorded_short [of stack d]
      length_recorded [of d stack]
    by (simp add: recorded_def)
qed

theorem capture_backtrace_nonzero_frames_witness:
  "nat 2 \<le> length [0, 0, 0, 0 :: 64 word]
   \<and> capture_backtrace [0, 0, 0, 0] 2 [7, 0, 8, 9] = Inr (2, [7, 8, 0, 0])
   \<and> nat 2 \<le> length (filter (\<lambda>pc. pc \<noteq> 0) [7, 0, 8 :: 64 word])
   \<and> capture_backtrace [0, 0, 0, 0] 2 ([7, 0, 8] @ [9]) = capture_backtrace [0, 0, 0, 0] 2 [7, 0, 8]
   \<and> (0::int) \<le> 2
   \<and> int (length (recorded 2 [7, 0, 8, 9])) \<le> 2"
proof -
  have h: "nat 2 \<le> length [0, 0, 0, 0 :: 64 word]" by simp
  have r: "recorded 2 [7, 0, 8, 9] = [7, 8]" by (simp add: recorded_def)
  have f: "nat 2 \<le> length (filter (\<lambda>pc. pc \<noteq> 0) [7, 0, 8 :: 64 word])" by simp
  have p: "(0::int) \<le> 2" by simp
  have "capture_backtrace [0, 0, 0, 0] 2 [7, 0, 8, 9]
          = Inr (int (length (recorded 2 [7, 0, 8, 9])),
                 recorded 2 [7, 0, 8, 9] @ drop (length (recorded 2 [7, 0, 8, 9])) [0, 0, 0, 0])"
    using capture_backtrace_nonzero_frames [OF h, of "[7, 0, 8, 9]"] by (rule conjunct1)
  then have a: "capture_backtrace [0, 0, 0, 0] 2 [7, 0, 8, 9] = Inr (2, [7, 8, 0, 0])"
    unfolding r by simp
  have b: "capture_backtrace [0, 0, 0, 0] 2 ([7, 0, 8] @ [9]) = capture_backtrace [0, 0, 0, 0] 2 [7, 0, 8]"
    using capture_backtrace_nonzero_frames [OF h, of "[7, 0, 8]" "[9]"] f by blast
  have c: "int (length (recorded 2 [7, 0, 8, 9])) \<le> 2"
    using capture_backtrace_nonzero_frames [OF h, of "[7, 0, 8, 9]"] p by blast
  show ?thesis using h a f b p c by blast
qed

section \<open>The record written by the handler\<close>

lemma get_signal_name_canonical: "get_signal_name sig = lit (canonical_name sig)"
  by (simp add: get_signal_name_def canonical_name_def signal_names_def
      SIGSEGV_def SIGABRT_def SIGBUS_def SIGFPE_def SIGILL_def SIGTRAP_def)

lemma canonical_name_cases:
  "canonical_name sig \<in> {''SIGSEGV'', ''SIGABRT'', ''SIGBUS'', ''SIGFPE'', ''SIGILL'', ''SIGTRAP'', ''UNKNOWN''}"
  by (simp add: canonical_name_def signal_names_def)

lemma canonical_name_no_NUL: "NUL \<notin> set (canonical_name sig)"
  by (simp add: canonical_name_def signal_names_def NUL_def)

lemma canonical_name_unknown: "canonical_name sig = ''UNKNOWN'' \<longleftrightarrow> sig \<notin> set g_signals"
  by (simp add: canonical_name_def signal_names_def g_signals_def
      SIGSEGV_def SIGABRT_def SIGBUS_def SIGFPE_def SIGILL_def SIGTRAP_def)

lemma canonical_name_monitored:
  "map canonical_name g_signals = [''SIGSEGV'', ''SIGABRT'', ''SIGBUS'', ''SIGFPE'', ''SIGILL'', ''SIGTRAP'']"
  by (simp add: canonical_name_def signal_names_def g_signals_def
      SIGSEGV_def SIGABRT_def SIGBUS_def SIGFPE_def SIGILL_def SIGTRAP_def)

lemma newline_no_NUL: "NUL \<notin> set newline"
  by (simp add: newline_def NUL_def)

lemma prefix_no_NUL: "NUL \<notin> set ''0x''"
  by (simp add: NUL_def)

lemma hex_no_NUL: "NUL \<notin> set (render 16 n)"
  by (rule render_no_NUL) simp_all

lemma length_hex: "length (render 16 (unat (v :: 64 word))) \<le> 16"
proof -
  have "unat v < 2 ^ 64" using unsigned_less [of v, where 'a = nat] by simp
  then have lt: "unat v < 16 ^ 16" by simp
  show ?thesis by (rule length_render_le [OF _ lt]) simp_all
qed

lemma safe_itoa_hex:
  assumes "24 \<le> length buffer"
  shows "safe_itoa v buffer 16
           = Inr (int (length (render 16 (unat v))), put_string buffer (render 16 (unat v)))"
proof -
  have fit: "int (length (render 16 (unat v))) \<le> INT_BUFFER_SIZE - 1"
    using length_hex [of v] by (simp add: INT_BUFFER_SIZE_def)
  have cap: "length (render 16 (unat v)) < length buffer"
    using length_hex [of v] assms by simp
  show ?thesis
    unfolding put_string_def using safe_itoa_render [of 16 v buffer] fit cap by simp
qed

lemma length_put_hex:
  "24 \<le> length buffer \<Longrightarrow> length (put_string buffer (render 16 (unat (v :: 64 word)))) = length buffer"
  using length_hex [of v] by (intro length_put_string) simp

declare write_frames.simps [simp del]

lemma write_frames_calls:
  assumes fd: "0 \<le> fd" and n: "n \<le> length bt"
  shows "i \<le> n \<Longrightarrow> 24 \<le> length num_buf \<Longrightarrow>
         \<exists>nb. write_frames fd (int i) (int n) bt num_buf os
                 = Inr (nb, os\<lparr>calls := calls os @ frame_calls fd (drop i (take n bt))\<rparr>)"
proof (induction "n - i" arbitrary: i num_buf os)
  case 0
  then show ?case by (subst write_frames.simps) (simp add: frame_calls_def)
next
  case (Suc d)
  then have lt: "i < n" by simp
  let ?pc = "bt ! i"
  let ?r = "render 16 (unat ?pc)"
  let ?os1 = "os\<lparr>calls := calls os @ [SysWrite fd ''0x'']\<rparr>"
  let ?nb = "put_string num_buf ?r"
  let ?os2 = "os\<lparr>calls := calls os @ [SysWrite fd ''0x'', SysWrite fd ?r]\<rparr>"
  let ?os3 = "os\<lparr>calls := calls os @ [SysWrite fd ''0x'', SysWrite fd ?r, SysWrite fd newline]\<rparr>"
  have w1: "safe_write fd (Some (lit ''0x'')) os = Inr ?os1"
    by (rule safe_write_lit [OF fd prefix_no_NUL])
  have r1: "rd_at bt (int i) = Inr ?pc" using lt n by (simp add: rd_at_def)
  have it: "safe_itoa ?pc num_buf 16 = Inr (int (length ?r), ?nb)"
    by (rule safe_itoa_hex [OF Suc(4)])
  have w2: "safe_write fd (Some ?nb) ?os1 = Inr ?os2"
    using safe_write_put_string [OF fd hex_no_NUL, of num_buf "unat ?pc" ?os1] by simp
  have w3: "safe_write fd (Some (lit newline)) ?os2 = Inr ?os3"
    using safe_write_lit [OF fd newline_no_NUL, of ?os2] by simp
  have len: "24 \<le> length ?nb" using Suc(4) by (simp add: length_put_hex)
  have "\<exists>nb. write_frames fd (int (Suc i)) (int n) bt ?nb ?os3
        = Inr (nb, ?os3\<lparr>calls := calls ?os3 @ frame_calls fd (drop (Suc i) (take n bt))\<rparr>)"
    by (rule Suc(1)) (use Suc(2) lt len in simp_all)
  then obtain nb where IH: "write_frames fd (int (Suc i)) (int n) bt ?nb ?os3
        = Inr (nb, ?os3\<lparr>calls := calls ?os3 @ frame_calls fd (drop (Suc i) (take n bt))\<rparr>)"
    by blast
  have "i < length (take n bt)" using lt n by simp
  then have "drop i (take n bt) = take n bt ! i # drop (Suc i) (take n bt)"
    by (rule Cons_nth_drop_Suc [symmetric])
  then have dr: "drop i (take n bt) = ?pc # drop (Suc i) (take n bt)" using lt by simp
  have step: "write_frames fd (int i) (int n) bt num_buf os
        = write_frames fd (int (Suc i)) (int n) bt ?nb ?os3"
    by (subst write_frames.simps) (simp add: lt w1 r1 it w2 w3 add.commute)
  show ?case unfolding step IH dr by (simp add: frame_calls_def)
qed

end
